theory Spec2Isabelle
  imports Main "HOL-Library.Word" "HOL-Library.AList"
begin

section \<open>Memory model\<close>

text \<open>
  The two translation units \<^verbatim>\<open>c/ffi.c\<close> and \<^verbatim>\<open>ffi.cc\<close> exchange heap objects with
  their caller through raw pointers. The model keeps an explicit store: a pointer is the
  address of an allocation (\<open>0\<close> is the null pointer), and the store lists the live
  allocations together with the number of bytes the allocator can still hand out.
  \<^verbatim>\<open>int32_t\<close> and \<^verbatim>\<open>int\<close> are 32-bit words whose addition wraps, \<^verbatim>\<open>char\<close> is an 8-bit
  word, a \<^verbatim>\<open>double\<close> is its 64-bit pattern (the code only copies doubles), and
  \<^verbatim>\<open>size_t\<close> values are natural numbers (no loop counter of the code can wrap: each is
  bounded by the size of an object that exists in memory).
\<close>

type_synonym byte = "8 word"
type_synonym int32 = "32 word"
type_synonym double = "64 word"
type_synonym addr = nat

datatype error = NullDeref | BadPointer | OutOfBounds | BadAlloc

record FFIData =
  d_id :: int32
  d_name :: "byte list"
  d_value :: double

record FFIPoint =
  point_x :: double
  point_y :: double

record ComplexObject =
  value_field :: int32

datatype obj =
    Data FFIData
  | Bytes "byte list"
  | Int32s "int32 list"
  | Point FFIPoint
  | Object ComplexObject

record 'o heap =
  cells :: "(addr \<times> 'o) list"
  room :: nat

definition lookup :: "'o heap \<Rightarrow> addr \<Rightarrow> 'o option" where
  "lookup h p = map_of (cells h) p"

definition fresh :: "'o heap \<Rightarrow> addr" where
  "fresh h = Suc (fold max (map fst (cells h)) 0)"

definition alloc :: "'o heap \<Rightarrow> nat \<Rightarrow> 'o \<Rightarrow> (addr \<times> 'o heap) option" where
  "alloc h n obj =
     (if n \<le> room h
      then Some (fresh h, h\<lparr>cells := (fresh h, obj) # cells h, room := room h - n\<rparr>)
      else None)"

definition release :: "'o heap \<Rightarrow> addr \<Rightarrow> nat \<Rightarrow> 'o heap" where
  "release h p n = h\<lparr>cells := AList.delete p (cells h), room := room h + n\<rparr>"

definition deref :: "'o heap \<Rightarrow> addr \<Rightarrow> error + 'o" where
  "deref h p =
     (if p = 0 then Inl NullDeref
      else case lookup h p of None \<Rightarrow> Inl BadPointer | Some obj \<Rightarrow> Inr obj)"

definition assign :: "'o heap \<Rightarrow> addr \<Rightarrow> 'o \<Rightarrow> 'o heap" where
  "assign h p obj = h\<lparr>cells := AList.update p obj (cells h)\<rparr>"

text \<open>Array accesses are bounds-checked: an access outside the array is an error value.\<close>

definition rd :: "'a list \<Rightarrow> nat \<Rightarrow> error + 'a" where
  "rd xs i = (if i < length xs then Inr (xs ! i) else Inl OutOfBounds)"

definition wr :: "'a list \<Rightarrow> nat \<Rightarrow> 'a \<Rightarrow> error + 'a list" where
  "wr xs i v = (if i < length xs then Inr (xs[i := v]) else Inl OutOfBounds)"

text \<open>
  \<^verbatim>\<open>malloc\<close> returns the null pointer when the request cannot be met; the contents of a
  fresh block are indeterminate and are passed in as \<open>raw\<close>. \<^verbatim>\<open>new\<close> throws
  \<^verbatim>\<open>std::bad_alloc\<close> instead.
\<close>

definition malloc :: "'o heap \<Rightarrow> nat \<Rightarrow> 'o \<Rightarrow> addr \<times> 'o heap" where
  "malloc h n raw = (case alloc h n raw of None \<Rightarrow> (0, h) | Some r \<Rightarrow> r)"

definition new :: "'o heap \<Rightarrow> nat \<Rightarrow> 'o \<Rightarrow> error + (addr \<times> 'o heap)" where
  "new h n obj = (case alloc h n obj of None \<Rightarrow> Inl BadAlloc | Some r \<Rightarrow> Inr r)"

definition load_data :: "obj heap \<Rightarrow> addr \<Rightarrow> error + FFIData" where
  "load_data h p =
     (case deref h p of Inl e \<Rightarrow> Inl e | Inr (Data d) \<Rightarrow> Inr d | Inr _ \<Rightarrow> Inl BadPointer)"

definition load_bytes :: "obj heap \<Rightarrow> addr \<Rightarrow> error + byte list" where
  "load_bytes h p =
     (case deref h p of Inl e \<Rightarrow> Inl e | Inr (Bytes bs) \<Rightarrow> Inr bs | Inr _ \<Rightarrow> Inl BadPointer)"

definition load_ints :: "obj heap \<Rightarrow> addr \<Rightarrow> error + int32 list" where
  "load_ints h p =
     (case deref h p of Inl e \<Rightarrow> Inl e | Inr (Int32s xs) \<Rightarrow> Inr xs | Inr _ \<Rightarrow> Inl BadPointer)"

definition load_point :: "obj heap \<Rightarrow> addr \<Rightarrow> error + FFIPoint" where
  "load_point h p =
     (case deref h p of Inl e \<Rightarrow> Inl e | Inr (Point pt) \<Rightarrow> Inr pt | Inr _ \<Rightarrow> Inl BadPointer)"

definition load_object :: "obj heap \<Rightarrow> addr \<Rightarrow> error + ComplexObject" where
  "load_object h p =
     (case deref h p of Inl e \<Rightarrow> Inl e | Inr (Object c) \<Rightarrow> Inr c | Inr _ \<Rightarrow> Inl BadPointer)"

definition load_byte :: "obj heap \<Rightarrow> addr \<Rightarrow> nat \<Rightarrow> error + byte" where
  "load_byte h p i = (case load_bytes h p of Inl e \<Rightarrow> Inl e | Inr bs \<Rightarrow> rd bs i)"

definition store_byte :: "obj heap \<Rightarrow> addr \<Rightarrow> nat \<Rightarrow> byte \<Rightarrow> error + obj heap" where
  "store_byte h p i c =
     (case load_bytes h p of
        Inl e \<Rightarrow> Inl e
      | Inr bs \<Rightarrow>
          (case wr bs i c of Inl e \<Rightarrow> Inl e | Inr bs' \<Rightarrow> Inr (assign h p (Bytes bs'))))"

definition load_int :: "obj heap \<Rightarrow> addr \<Rightarrow> nat \<Rightarrow> error + int32" where
  "load_int h p i = (case load_ints h p of Inl e \<Rightarrow> Inl e | Inr xs \<Rightarrow> rd xs i)"

section \<open>The C library functions the code calls\<close>

text \<open>
  \<^verbatim>\<open>strlen\<close> and \<^verbatim>\<open>strncpy\<close> belong to the C library, not to the repository; they follow
  ISO C. \<open>cstring\<close> is the string a buffer holds: its bytes before the first null byte.
\<close>

definition cstring :: "byte list \<Rightarrow> byte list" where
  "cstring bs = takeWhile (\<lambda>c. c \<noteq> 0) bs"

function strlen_from :: "byte list \<Rightarrow> nat \<Rightarrow> error + nat" where
  "strlen_from s i =
     (case rd s i of
        Inl e \<Rightarrow> Inl e
      | Inr c \<Rightarrow> if c = 0 then Inr i else strlen_from s (Suc i))"
  by pat_completeness auto
termination
  by (relation "measure (\<lambda>(s, i). length s - i)") (auto simp: rd_def split: if_splits)

definition strlen :: "byte list \<Rightarrow> error + nat" where
  "strlen s = strlen_from s 0"

definition strlen_at :: "obj heap \<Rightarrow> addr \<Rightarrow> error + nat" where
  "strlen_at h p = (case load_bytes h p of Inl e \<Rightarrow> Inl e | Inr bs \<Rightarrow> strlen bs)"

text \<open>
  \<^verbatim>\<open>strncpy(dst, src, n)\<close> copies at most \<open>n\<close> bytes, stops copying at the first null
  byte of \<open>src\<close>, and fills what is left of the \<open>n\<close> bytes with null bytes.
\<close>

function strncpy_fill :: "byte list \<Rightarrow> nat \<Rightarrow> nat \<Rightarrow> error + byte list" where
  "strncpy_fill dst i n =
     (if i < n
      then (case wr dst i 0 of
              Inl e \<Rightarrow> Inl e
            | Inr dst' \<Rightarrow> strncpy_fill dst' (Suc i) n)
      else Inr dst)"
  by pat_completeness auto
termination
  by (relation "measure (\<lambda>(dst, i, n). n - i)") auto

function strncpy_copy :: "byte list \<Rightarrow> byte list \<Rightarrow> nat \<Rightarrow> nat \<Rightarrow> error + byte list" where
  "strncpy_copy dst src i n =
     (if i < n
      then (case rd src i of
              Inl e \<Rightarrow> Inl e
            | Inr c \<Rightarrow>
                if c = 0 then strncpy_fill dst i n
                else (case wr dst i c of
                        Inl e \<Rightarrow> Inl e
                      | Inr dst' \<Rightarrow> strncpy_copy dst' src (Suc i) n))
      else Inr dst)"
  by pat_completeness auto
termination
  by (relation "measure (\<lambda>(dst, src, i, n). n - i)") auto

definition strncpy :: "byte list \<Rightarrow> byte list \<Rightarrow> nat \<Rightarrow> error + byte list" where
  "strncpy dst src n = strncpy_copy dst src 0 n"

declare strlen_from.simps [simp del] strncpy_fill.simps [simp del] strncpy_copy.simps [simp del]

section \<open>c/ffi.c\<close>

text \<open>
  \<^verbatim>\<open>sizeof(FFIData)\<close> on the usual ABIs: a 4-byte \<^verbatim>\<open>id\<close>, the 64-byte \<^verbatim>\<open>name\<close>, 4 bytes
  of padding and the 8-byte \<^verbatim>\<open>value\<close>.
\<close>

definition sizeof_FFIData :: nat where
  "sizeof_FFIData = 80"

definition store_id :: "obj heap \<Rightarrow> addr \<Rightarrow> int32 \<Rightarrow> error + obj heap" where
  "store_id h p v =
     (case load_data h p of
        Inl e \<Rightarrow> Inl e
      | Inr d \<Rightarrow> Inr (assign h p (Data (d\<lparr>d_id := v\<rparr>))))"

definition store_value :: "obj heap \<Rightarrow> addr \<Rightarrow> double \<Rightarrow> error + obj heap" where
  "store_value h p v =
     (case load_data h p of
        Inl e \<Rightarrow> Inl e
      | Inr d \<Rightarrow> Inr (assign h p (Data (d\<lparr>d_value := v\<rparr>))))"

definition store_name_at :: "obj heap \<Rightarrow> addr \<Rightarrow> nat \<Rightarrow> byte \<Rightarrow> error + obj heap" where
  "store_name_at h p i c =
     (case load_data h p of
        Inl e \<Rightarrow> Inl e
      | Inr d \<Rightarrow>
          (case wr (d_name d) i c of
             Inl e \<Rightarrow> Inl e
           | Inr nm \<Rightarrow> Inr (assign h p (Data (d\<lparr>d_name := nm\<rparr>)))))"

definition strncpy_name :: "obj heap \<Rightarrow> addr \<Rightarrow> addr \<Rightarrow> nat \<Rightarrow> error + obj heap" where
  "strncpy_name h p src n =
     (case load_data h p of
        Inl e \<Rightarrow> Inl e
      | Inr d \<Rightarrow>
          (case load_bytes h src of
             Inl e \<Rightarrow> Inl e
           | Inr bs \<Rightarrow>
               (case strncpy (d_name d) bs n of
                  Inl e \<Rightarrow> Inl e
                | Inr nm \<Rightarrow> Inr (assign h p (Data (d\<lparr>d_name := nm\<rparr>))))))"

text \<open>
  \<^verbatim>\<open>create_data\<close>: the block comes from \<^verbatim>\<open>malloc\<close> with indeterminate contents \<open>raw\<close>
  and is not checked against null, so the first store through a null result fails.
\<close>

definition create_data ::
  "obj heap \<Rightarrow> FFIData \<Rightarrow> int32 \<Rightarrow> addr \<Rightarrow> double \<Rightarrow> error + (addr \<times> obj heap)" where
  "create_data h raw ident name val =
     (case malloc h sizeof_FFIData (Data raw) of
        (data, h0) \<Rightarrow>
     (case store_id h0 data ident of Inl e \<Rightarrow> Inl e | Inr h1 \<Rightarrow>
     (case strncpy_name h1 data name 63 of Inl e \<Rightarrow> Inl e | Inr h2 \<Rightarrow>
     (case store_name_at h2 data 63 0 of Inl e \<Rightarrow> Inl e | Inr h3 \<Rightarrow>
     (case store_value h3 data val of Inl e \<Rightarrow> Inl e | Inr h4 \<Rightarrow>
        Inr (data, h4))))))"

text \<open>
  A callback acts on the caller's state \<open>'w\<close>. Every call through a function pointer is
  also appended to a log of the status codes passed, so that the number of invocations
  and their arguments can be read off.
\<close>

record 'w exec =
  world :: 'w
  calls :: "int32 list"

type_synonym 'w callback = "int32 \<Rightarrow> 'w \<Rightarrow> 'w"

definition invoke :: "'w callback \<Rightarrow> int32 \<Rightarrow> 'w exec \<Rightarrow> 'w exec" where
  "invoke cb status s = \<lparr>world = cb status (world s), calls = calls s @ [status]\<rparr>"

definition register_callback :: "'w callback \<Rightarrow> 'w exec \<Rightarrow> 'w exec" where
  "register_callback callback s = invoke callback 200 s"

function sum_array_loop :: "obj heap \<Rightarrow> addr \<Rightarrow> nat \<Rightarrow> nat \<Rightarrow> int32 \<Rightarrow> error + int32" where
  "sum_array_loop h array len i acc =
     (if i < len
      then (case load_int h array i of
              Inl e \<Rightarrow> Inl e
            | Inr v \<Rightarrow> sum_array_loop h array len (Suc i) (acc + v))
      else Inr acc)"
  by pat_completeness auto
termination
  by (relation "measure (\<lambda>(h, array, len, i, acc). len - i)") auto

definition sum_array :: "obj heap \<Rightarrow> addr \<Rightarrow> nat \<Rightarrow> error + int32" where
  "sum_array h array len = sum_array_loop h array len 0 0"

function reverse_string_loop ::
  "obj heap \<Rightarrow> addr \<Rightarrow> addr \<Rightarrow> nat \<Rightarrow> nat \<Rightarrow> error + obj heap" where
  "reverse_string_loop h result input len i =
     (if i < len
      then (case load_byte h input (len - 1 - i) of
              Inl e \<Rightarrow> Inl e
            | Inr c \<Rightarrow>
                (case store_byte h result i c of
                   Inl e \<Rightarrow> Inl e
                 | Inr h' \<Rightarrow> reverse_string_loop h' result input len (Suc i)))
      else Inr h)"
  by pat_completeness auto
termination
  by (relation "measure (\<lambda>(h, result, input, len, i). len - i)") auto

text \<open>\<open>junk\<close> gives the indeterminate byte at each offset of the block \<^verbatim>\<open>malloc\<close> returns.\<close>

definition reverse_string ::
  "obj heap \<Rightarrow> (nat \<Rightarrow> byte) \<Rightarrow> addr \<Rightarrow> error + (addr \<times> obj heap)" where
  "reverse_string h junk input =
     (case strlen_at h input of Inl e \<Rightarrow> Inl e | Inr len \<Rightarrow>
     (case malloc h (len + 1) (Bytes (map junk [0..<len + 1])) of
        (result, h0) \<Rightarrow>
     (case reverse_string_loop h0 result input len 0 of Inl e \<Rightarrow> Inl e | Inr h1 \<Rightarrow>
     (case store_byte h1 result len 0 of Inl e \<Rightarrow> Inl e | Inr h2 \<Rightarrow>
        Inr (result, h2)))))"

declare sum_array_loop.simps [simp del] reverse_string_loop.simps [simp del]

section \<open>ffi.cc\<close>

text \<open>A string literal occupies static storage: its characters followed by a null byte.\<close>

definition string_literal :: "string \<Rightarrow> byte list" where
  "string_literal s = map of_char s @ [0]"

definition get_string :: "obj heap \<Rightarrow> byte list \<times> obj heap" where
  "get_string h = (string_literal ''Hello from C++'', h)"

text \<open>
  \<^verbatim>\<open>process_string\<close> builds a local \<^verbatim>\<open>std::string\<close> from its argument and destroys it when
  the scope ends. The constructor measures the argument, obtains storage for the
  characters and their terminator and copies them; the destructor gives the storage back.
\<close>

definition process_string :: "obj heap \<Rightarrow> addr \<Rightarrow> error + obj heap" where
  "process_string h input =
     (case load_bytes h input of Inl e \<Rightarrow> Inl e | Inr src \<Rightarrow>
     (case strlen src of Inl e \<Rightarrow> Inl e | Inr len \<Rightarrow>
     (case new h (len + 1) (Bytes (take len src @ [0])) of
        Inl e \<Rightarrow> Inl e
      | Inr (cpp_str, h1) \<Rightarrow> Inr (release h1 cpp_str (len + 1)))))"

definition sizeof_FFIPoint :: nat where
  "sizeof_FFIPoint = 16"

definition create_point :: "obj heap \<Rightarrow> double \<Rightarrow> double \<Rightarrow> error + (addr \<times> obj heap)" where
  "create_point h x y = new h sizeof_FFIPoint (Point \<lparr>point_x = x, point_y = y\<rparr>)"

definition register_callback_cxx :: "'w callback \<Rightarrow> 'w exec \<Rightarrow> 'w exec" where
  "register_callback_cxx callback s = invoke callback 42 s"

text \<open>The class \<^verbatim>\<open>ComplexObject\<close>: constructor, \<^verbatim>\<open>setValue\<close> and \<^verbatim>\<open>getValue\<close>.\<close>

definition ComplexObject_init :: ComplexObject where
  "ComplexObject_init = \<lparr>value_field = 0\<rparr>"

definition setValue :: "ComplexObject \<Rightarrow> int32 \<Rightarrow> ComplexObject" where
  "setValue this v = this\<lparr>value_field := v\<rparr>"

definition getValue :: "ComplexObject \<Rightarrow> int32" where
  "getValue this = value_field this"

definition sizeof_ComplexObject :: nat where
  "sizeof_ComplexObject = 4"

definition create_complex_object :: "obj heap \<Rightarrow> error + (addr \<times> obj heap)" where
  "create_complex_object h = new h sizeof_ComplexObject (Object ComplexObject_init)"

definition set_complex_value :: "obj heap \<Rightarrow> addr \<Rightarrow> int32 \<Rightarrow> error + obj heap" where
  "set_complex_value h p v =
     (case load_object h p of
        Inl e \<Rightarrow> Inl e
      | Inr c \<Rightarrow> Inr (assign h p (Object (setValue c v))))"

definition get_complex_value :: "obj heap \<Rightarrow> addr \<Rightarrow> error + (int32 \<times> obj heap)" where
  "get_complex_value h p =
     (case load_object h p of
        Inl e \<Rightarrow> Inl e
      | Inr c \<Rightarrow> Inr (getValue c, h))"

section \<open>Callers used in the statements\<close>

text \<open>A caller that sets the values of a list on one handle, one call after the other.\<close>

fun set_complex_values :: "obj heap \<Rightarrow> addr \<Rightarrow> int32 list \<Rightarrow> error + obj heap" where
  "set_complex_values h p [] = Inr h"
| "set_complex_values h p (v # vs) =
     (case set_complex_value h p v of
        Inl e \<Rightarrow> Inl e
      | Inr h' \<Rightarrow> set_complex_values h' p vs)"

text \<open>A test callback that records how often it ran and the argument it received last.\<close>

definition counting_callback :: "(nat \<times> int32) callback" where
  "counting_callback status w = (Suc (fst w), status)"

text \<open>
  A caller's memory: the string \<^verbatim>\<open>"abc"\<close> at address 3, the array \<^verbatim>\<open>{1, 2, 3}\<close> at
  address 5, a string of 70 characters at address 7, the array \<^verbatim>\<open>{INT32_MAX, 1}\<close> at
  address 9, the empty string at address 11, and 200 bytes left to allocate.
\<close>

definition caller_heap :: "obj heap" where
  "caller_heap =
     \<lparr>cells = [(3, Bytes [97, 98, 99, 0, 7]), (5, Int32s [1, 2, 3]),
               (7, Bytes (replicate 70 120 @ [0])), (9, Int32s [2147483647, 1]),
               (11, Bytes [0])],
      room = 200\<rparr>"

text \<open>The same memory after \<^verbatim>\<open>create_complex_object\<close> has put a holder at address 12.\<close>

definition holder_heap :: "obj heap" where
  "holder_heap =
     caller_heap\<lparr>cells := (12, Object ComplexObject_init) # cells caller_heap,
                 room := room caller_heap - sizeof_ComplexObject\<rparr>"

text \<open>Some indeterminate contents for a fresh block.\<close>

definition raw_data :: FFIData where
  "raw_data = \<lparr>d_id = 7, d_name = replicate 64 170, d_value = 9\<rparr>"

definition raw_bytes :: "nat \<Rightarrow> byte" where
  "raw_bytes i = 170"

section \<open>Strings and the C library functions\<close>

lemma cstring_length_less: "0 \<in> set s \<Longrightarrow> length (cstring s) < length s"
  by (induction s) (auto simp: cstring_def)

lemma cstring_nth_terminator: "0 \<in> set s \<Longrightarrow> s ! length (cstring s) = 0"
  by (induction s) (auto simp: cstring_def)

lemma cstring_nth: "i < length (cstring s) \<Longrightarrow> cstring s ! i = s ! i \<and> s ! i \<noteq> 0"
proof (induction s arbitrary: i)
  case Nil
  then show ?case by (simp add: cstring_def)
next
  case (Cons a s)
  then show ?case by (cases i) (auto simp: cstring_def split: if_splits)
qed

lemma strlen_from_cstring:
  "0 \<in> set s \<Longrightarrow> i \<le> length (cstring s) \<Longrightarrow> strlen_from s i = Inr (length (cstring s))"
proof (induction s i rule: strlen_from.induct)
  case (1 s i)
  have lt: "length (cstring s) < length s" using "1.prems"(1) by (rule cstring_length_less)
  show ?case
  proof (cases "s ! i = 0")
    case True
    have "\<not> i < length (cstring s)" using True cstring_nth [of i s] by auto
    then have "i = length (cstring s)" using "1.prems"(2) by simp
    then show ?thesis using True lt by (subst strlen_from.simps) (simp add: rd_def)
  next
    case False
    then have "i \<noteq> length (cstring s)" using cstring_nth_terminator [OF "1.prems"(1)] by auto
    then have "Suc i \<le> length (cstring s)" using "1.prems"(2) by simp
    moreover have r: "rd s i = Inr (s ! i)" using lt "1.prems"(2) by (simp add: rd_def)
    ultimately show ?thesis
      using "1.IH" [OF r False] "1.prems"(1) r False by (subst strlen_from.simps) simp
  qed
qed

lemma strlen_cstring: "0 \<in> set s \<Longrightarrow> strlen s = Inr (length (cstring s))"
  unfolding strlen_def by (rule strlen_from_cstring) simp_all

lemma strncpy_fill_result:
  "n \<le> length dst \<Longrightarrow> i \<le> n \<Longrightarrow>
   strncpy_fill dst i n = Inr (take i dst @ replicate (n - i) 0 @ drop n dst)"
proof (induction dst i n rule: strncpy_fill.induct)
  case (1 dst i n)
  show ?case
  proof (cases "i < n")
    case True
    have w: "wr dst i 0 = Inr (dst[i := 0])" using True "1.prems"(1) by (simp add: wr_def)
    have "strncpy_fill (dst[i := 0]) (Suc i) n =
          Inr (take (Suc i) (dst[i := 0]) @ replicate (n - Suc i) 0 @ drop n (dst[i := 0]))"
      using "1.IH" [OF True w] True "1.prems"(1) by simp
    moreover have "take (Suc i) (dst[i := 0]) = take i dst @ [0]"
      using True "1.prems"(1) by (simp add: take_Suc_conv_app_nth)
    moreover have "replicate (n - i) (0::byte) = 0 # replicate (n - Suc i) 0"
      using True by (simp add: Suc_diff_Suc flip: replicate_Suc)
    ultimately show ?thesis
      using True w by (subst strncpy_fill.simps) simp
  next
    case False
    then show ?thesis using "1.prems"(2) by (subst strncpy_fill.simps) simp
  qed
qed

lemma strncpy_copy_result:
  assumes "0 \<in> set src" and "n \<le> length dst" and "i \<le> n" and "i \<le> length (cstring src)"
  shows "strncpy_copy dst src i n =
         Inr (take i dst @ drop i (take n (cstring src @ replicate n 0)) @ drop n dst)"
  using assms
proof (induction dst src i n rule: strncpy_copy.induct)
  case (1 dst src i n)
  let ?P = "cstring src @ replicate n 0"
  have lt: "length (cstring src) < length src" using "1.prems"(1) by (rule cstring_length_less)
  show ?case
  proof (cases "i < n")
    case False
    then show ?thesis using "1.prems"(3) by (subst strncpy_copy.simps) simp
  next
    case True
    have r: "rd src i = Inr (src ! i)" using lt "1.prems"(4) by (simp add: rd_def)
    show ?thesis
    proof (cases "src ! i = 0")
      case z: True
      have "\<not> i < length (cstring src)" using z cstring_nth [of i src] by auto
      then have i: "i = length (cstring src)" using "1.prems"(4) by simp
      have "drop i (take n ?P) = replicate (n - i) 0" using i True by simp
      then show ?thesis
        using True r z strncpy_fill_result [OF "1.prems"(2) "1.prems"(3)]
        by (subst strncpy_copy.simps) simp
    next
      case nz: False
      then have "i \<noteq> length (cstring src)" using cstring_nth_terminator [OF "1.prems"(1)] by auto
      then have i: "i < length (cstring src)" using "1.prems"(4) by simp
      have w: "wr dst i (src ! i) = Inr (dst[i := src ! i])" using True "1.prems"(2) by (simp add: wr_def)
      have ih: "strncpy_copy (dst[i := src ! i]) src (Suc i) n =
          Inr (take (Suc i) (dst[i := src ! i]) @ drop (Suc i) (take n ?P) @ drop n (dst[i := src ! i]))"
        using "1.IH" [OF True r nz w] "1.prems"(1) "1.prems"(2) True i by simp
      have "take n ?P ! i = src ! i" using True i cstring_nth [of i src] by (simp add: nth_append)
      moreover have "i < length (take n ?P)" using True i by simp
      ultimately have d: "drop i (take n ?P) = src ! i # drop (Suc i) (take n ?P)"
        by (metis Cons_nth_drop_Suc)
      have t: "take (Suc i) (dst[i := src ! i]) = take i dst @ [src ! i]"
        using True "1.prems"(2) by (simp add: take_Suc_conv_app_nth)
      show ?thesis
        using True r nz w ih d t by (subst strncpy_copy.simps) simp
    qed
  qed
qed

lemma strncpy_result:
  "0 \<in> set src \<Longrightarrow> n \<le> length dst \<Longrightarrow>
   strncpy dst src n = Inr (take n (cstring src @ replicate n 0) @ drop n dst)"
  unfolding strncpy_def by (simp add: strncpy_copy_result)


section \<open>Allocation and the store\<close>

lemma fold_max_ge: "(a::nat) \<le> fold max xs a \<and> (\<forall>x\<in>set xs. x \<le> fold max xs a)"
proof (induction xs arbitrary: a)
  case Nil
  show ?case by simp
next
  case (Cons y ys)
  have "max y a \<le> fold max ys (max y a)" and "\<forall>x\<in>set ys. x \<le> fold max ys (max y a)"
    using Cons.IH [of "max y a"] by simp_all
  then show ?case by auto
qed

lemma fresh_nonzero [simp]: "fresh h \<noteq> 0"
  by (simp add: fresh_def)

lemma fresh_pos [simp]: "0 < fresh h"
  by (simp add: fresh_def)

lemma fresh_notin_cells: "fresh h \<notin> fst ` set (cells h)"
proof
  assume "fresh h \<in> fst ` set (cells h)"
  then have "fresh h \<in> set (map fst (cells h))" by simp
  then have "fresh h \<le> fold max (map fst (cells h)) 0" using fold_max_ge by blast
  then show False by (simp add: fresh_def)
qed

lemma lookup_fresh [simp]: "lookup h (fresh h) = None"
  using fresh_notin_cells [of h] by (simp add: lookup_def map_of_eq_None_iff)

lemma lookup_live_not_fresh: "lookup h p = Some obj \<Longrightarrow> p \<noteq> fresh h"
  by auto

lemma deref_Inr_iff: "deref h p = Inr obj \<longleftrightarrow> p \<noteq> 0 \<and> lookup h p = Some obj"
  by (auto simp: deref_def split: option.splits)

lemma load_bytes_Inr_iff: "load_bytes h p = Inr bs \<longleftrightarrow> p \<noteq> 0 \<and> lookup h p = Some (Bytes bs)"
  by (auto simp: load_bytes_def deref_def split: option.splits obj.splits)

lemma load_data_Inr_iff: "load_data h p = Inr d \<longleftrightarrow> p \<noteq> 0 \<and> lookup h p = Some (Data d)"
  by (auto simp: load_data_def deref_def split: option.splits obj.splits)

lemma load_ints_Inr_iff: "load_ints h p = Inr xs \<longleftrightarrow> p \<noteq> 0 \<and> lookup h p = Some (Int32s xs)"
  by (auto simp: load_ints_def deref_def split: option.splits obj.splits)

lemma lookup_assign: "lookup (assign h p obj) q = (if q = p then Some obj else lookup h q)"
  by (simp add: lookup_def assign_def update_conv')

lemma assign_assign [simp]: "assign (assign h p a) p b = assign h p b"
  by (simp add: assign_def)

lemma assign_same: "lookup h p = Some obj \<Longrightarrow> assign h p obj = h"
  by (simp add: lookup_def assign_def update_triv)

lemma alloc_Some:
  "n \<le> room h \<Longrightarrow>
   alloc h n obj = Some (fresh h, h\<lparr>cells := (fresh h, obj) # cells h, room := room h - n\<rparr>)"
  by (simp add: alloc_def)

lemma lookup_head: "lookup (h\<lparr>cells := (p, obj) # cells h, room := r\<rparr>) q = (if q = p then Some obj else lookup h q)"
  by (simp add: lookup_def)

lemma assign_head:
  "assign (h\<lparr>cells := (p, a) # cells h, room := r\<rparr>) p b = h\<lparr>cells := (p, b) # cells h, room := r\<rparr>"
  by (simp add: assign_def)


section \<open>What the entry points compute\<close>

lemma cstring_padded:
  "\<forall>x\<in>set xs. x \<noteq> 0 \<Longrightarrow> cstring (xs @ replicate k 0 @ [0]) = xs"
  by (cases k) (simp_all add: cstring_def)

lemma cstring_nonzero: "\<forall>x\<in>set (cstring s). x \<noteq> 0"
  by (auto simp: cstring_def dest: set_takeWhileD)

lemma take_cstring: "take (length (cstring s)) s = cstring s"
  by (simp add: cstring_def takeWhile_eq_take [symmetric])

lemma wr_last: "length xs = n \<Longrightarrow> wr (xs @ [a]) n b = Inr (xs @ [b])"
  by (auto simp: wr_def)

lemma strncpy_63_64:
  assumes "0 \<in> set src" and "length nm = 64"
  shows "strncpy nm src 63 = Inr (take 63 (cstring src @ replicate 63 0) @ [nm ! 63])"
proof -
  have "nm ! 63 # drop (Suc 63) nm = drop 63 nm"
    using assms(2) by (intro Cons_nth_drop_Suc) simp
  then have "drop 63 nm = [nm ! 63]"
    using assms(2) by simp
  then show ?thesis using assms by (simp add: strncpy_result)
qed

lemma create_data_result:
  assumes name: "load_bytes h name = Inr src"
    and nul: "0 \<in> set src"
    and raw: "length (d_name raw) = 64"
    and room: "sizeof_FFIData \<le> room h"
  shows "create_data h raw ident name val =
         Inr (fresh h,
              h\<lparr>cells := (fresh h,
                          Data \<lparr>d_id = ident,
                                d_name = take 63 (cstring src @ replicate 63 0) @ [0],
                                d_value = val\<rparr>) # cells h,
                room := room h - sizeof_FFIData\<rparr>)"
proof -
  define nm where "nm = take 63 (cstring src @ replicate 63 0)"
  let ?p = "fresh h"
  let ?r = "room h - sizeof_FFIData"
  let ?H = "\<lambda>d. h\<lparr>cells := (?p, Data d) # cells h, room := ?r\<rparr>"
  have ne: "name \<noteq> ?p" and nz: "name \<noteq> 0" and lk: "lookup h name = Some (Bytes src)"
    using name by (auto simp: load_bytes_Inr_iff)
  have m: "malloc h sizeof_FFIData (Data raw) = (?p, ?H raw)"
    using room by (simp add: malloc_def alloc_Some)
  have ld: "\<And>d. load_data (?H d) ?p = Inr d"
    by (simp add: load_data_Inr_iff lookup_head)
  have lb: "\<And>d. load_bytes (?H d) name = Inr src"
    using ne nz lk by (simp add: load_bytes_Inr_iff lookup_head)
  have s1: "store_id (?H raw) ?p ident = Inr (?H (raw\<lparr>d_id := ident\<rparr>))"
    by (simp add: store_id_def ld assign_head)
  have cp: "strncpy (d_name raw) src 63 = Inr (nm @ [d_name raw ! 63])"
    unfolding nm_def using nul raw by (rule strncpy_63_64)
  have s2: "strncpy_name (?H (raw\<lparr>d_id := ident\<rparr>)) ?p name 63 =
            Inr (?H (raw\<lparr>d_id := ident, d_name := nm @ [d_name raw ! 63]\<rparr>))"
    by (simp add: strncpy_name_def ld lb cp assign_head)
  have l63: "length nm = 63" by (simp add: nm_def)
  have w: "wr (nm @ [d_name raw ! 63]) 63 0 = Inr (nm @ [0])"
    using l63 by (rule wr_last)
  have s3: "store_name_at (?H (raw\<lparr>d_id := ident, d_name := nm @ [d_name raw ! 63]\<rparr>)) ?p 63 0 =
            Inr (?H (raw\<lparr>d_id := ident, d_name := nm @ [0]\<rparr>))"
    by (simp add: store_name_at_def ld w assign_head)
  have s4: "store_value (?H (raw\<lparr>d_id := ident, d_name := nm @ [0]\<rparr>)) ?p val =
            Inr (?H \<lparr>d_id = ident, d_name = nm @ [0], d_value = val\<rparr>)"
    by (simp add: store_value_def ld assign_head)
  show ?thesis
    unfolding create_data_def nm_def [symmetric]
    by (simp only: m s1 s2 s3 s4 prod.case sum.case)
qed

lemma word_sum_list_sint:
  "word_of_int (sum_list (map sint xs)) = (sum_list xs :: int32)"
  by (induction xs) simp_all

lemma sum_array_loop_result:
  assumes "load_ints h array = Inr xs" and "len \<le> length xs" and "i \<le> len"
  shows "sum_array_loop h array len i acc = Inr (acc + sum_list (drop i (take len xs)))"
  using assms
proof (induction h array len i acc rule: sum_array_loop.induct)
  case (1 h array len i acc)
  show ?case
  proof (cases "i < len")
    case True
    have r: "load_int h array i = Inr (xs ! i)"
      using True "1.prems" by (simp add: load_int_def rd_def)
    have "drop i (take len xs) = xs ! i # drop (Suc i) (take len xs)"
      using True "1.prems"(2) by (metis Cons_nth_drop_Suc length_take min.absorb2 nth_take)
    then show ?thesis
      using True r "1.IH" [OF True r] "1.prems"
      by (subst sum_array_loop.simps) (simp add: add.assoc)
  next
    case False
    then show ?thesis using "1.prems" by (subst sum_array_loop.simps) simp
  qed
qed

lemma sum_array_result:
  assumes "load_ints h array = Inr xs" and "len \<le> length xs"
  shows "sum_array h array len = Inr (sum_list (take len xs))"
  unfolding sum_array_def using sum_array_loop_result [OF assms, of 0 0] by simp

lemma sum_array_zero_length: "sum_array h array 0 = Inr 0"
  unfolding sum_array_def by (subst sum_array_loop.simps) simp

lemma reverse_string_loop_result:
  assumes "lookup h input = Some (Bytes src)" and "lookup h result = Some (Bytes buf)"
    and "input \<noteq> 0" and "result \<noteq> 0" and "input \<noteq> result"
    and "len \<le> length src" and "len \<le> length buf" and "i \<le> len"
  shows "reverse_string_loop h result input len i =
         Inr (assign h result (Bytes (take i buf @ rev (take (len - i) src) @ drop len buf)))"
  using assms
proof (induction h result input len i arbitrary: buf rule: reverse_string_loop.induct)
  case (1 h result input len i)
  show ?case
  proof (cases "i < len")
    case False
    then have "i = len" using "1.prems"(8) by simp
    then show ?thesis
      using "1.prems"(2) by (subst reverse_string_loop.simps) (simp add: assign_same)
  next
    case True
    let ?c = "src ! (len - 1 - i)"
    let ?h = "assign h result (Bytes (buf[i := ?c]))"
    have r: "load_byte h input (len - 1 - i) = Inr ?c"
      using True "1.prems" by (simp add: load_byte_def load_bytes_Inr_iff [THEN iffD2] rd_def)
    have w: "store_byte h result i ?c = Inr ?h"
      using True "1.prems" by (simp add: store_byte_def load_bytes_Inr_iff [THEN iffD2] wr_def)
    have ih: "reverse_string_loop ?h result input len (Suc i) =
              Inr (assign ?h result
                     (Bytes (take (Suc i) (buf[i := ?c]) @ rev (take (len - Suc i) src) @ drop len (buf[i := ?c]))))"
      using True "1.prems" by (intro "1.IH" [OF True r w]) (simp_all add: lookup_assign)
    have k: "len - i = Suc (len - Suc i)" using True by simp
    have "rev (take (len - i) src) = ?c # rev (take (len - Suc i) src)"
      using True "1.prems"(6) unfolding k by (simp add: take_Suc_conv_app_nth)
    moreover have "take (Suc i) (buf[i := ?c]) = take i buf @ [?c]"
      using True "1.prems"(7) by (simp add: take_Suc_conv_app_nth)
    ultimately show ?thesis
      using True r w ih by (subst reverse_string_loop.simps) simp
  qed
qed

lemma reverse_string_result:
  assumes inp: "load_bytes h input = Inr src"
    and nul: "0 \<in> set src"
    and room: "length (cstring src) + 1 \<le> room h"
  shows "reverse_string h junk input =
         Inr (fresh h,
              h\<lparr>cells := (fresh h, Bytes (rev (cstring src) @ [0])) # cells h,
                room := room h - (length (cstring src) + 1)\<rparr>)"
proof -
  let ?len = "length (cstring src)"
  let ?p = "fresh h"
  let ?H = "\<lambda>bs. h\<lparr>cells := (?p, Bytes bs) # cells h, room := room h - (?len + 1)\<rparr>"
  let ?buf = "map junk [0..<?len + 1]"
  have ne: "input \<noteq> ?p" and nz: "input \<noteq> 0" and lk: "lookup h input = Some (Bytes src)"
    using inp by (auto simp: load_bytes_Inr_iff)
  have sl: "strlen_at h input = Inr ?len"
    using inp nul by (simp add: strlen_at_def strlen_cstring)
  have m: "malloc h (?len + 1) (Bytes ?buf) = (?p, ?H ?buf)"
    using room by (simp add: malloc_def alloc_Some)
  have lt: "?len < length src" using nul by (rule cstring_length_less)
  have "reverse_string_loop (?H ?buf) ?p input ?len 0 =
        Inr (assign (?H ?buf) ?p (Bytes (take 0 ?buf @ rev (take (?len - 0) src) @ drop ?len ?buf)))"
    using ne nz lk lt by (intro reverse_string_loop_result) (simp_all add: lookup_head)
  moreover have "drop ?len ?buf = [junk ?len]"
    by (simp add: drop_map)
  ultimately have lp: "reverse_string_loop (?H ?buf) ?p input ?len 0 = Inr (?H (rev (cstring src) @ [junk ?len]))"
    by (simp add: assign_head take_cstring)
  have st: "store_byte (?H (rev (cstring src) @ [junk ?len])) ?p ?len 0 = Inr (?H (rev (cstring src) @ [0]))"
    by (simp add: store_byte_def load_bytes_Inr_iff [THEN iffD2] lookup_head wr_last assign_head)
  show ?thesis
    unfolding reverse_string_def by (simp only: sl m lp st prod.case sum.case)
qed



lemma load_point_Inr_iff: "load_point h p = Inr pt \<longleftrightarrow> p \<noteq> 0 \<and> lookup h p = Some (Point pt)"
  by (auto simp: load_point_def deref_def split: option.splits obj.splits)

lemma load_object_Inr_iff: "load_object h p = Inr c \<longleftrightarrow> p \<noteq> 0 \<and> lookup h p = Some (Object c)"
  by (auto simp: load_object_def deref_def split: option.splits obj.splits)

lemma new_Inr:
  "n \<le> room h \<Longrightarrow>
   new h n obj = Inr (fresh h, h\<lparr>cells := (fresh h, obj) # cells h, room := room h - n\<rparr>)"
  by (simp add: new_def alloc_Some)

lemma new_Inr_D:
  "new h n obj = Inr (p, h') \<Longrightarrow>
   p = fresh h \<and> h' = h\<lparr>cells := (fresh h, obj) # cells h, room := room h - n\<rparr>"
  by (auto simp: new_def alloc_def split: if_splits)

lemma release_new:
  "n \<le> room h \<Longrightarrow>
   release (h\<lparr>cells := (fresh h, obj) # cells h, room := room h - n\<rparr>) (fresh h) n = h"
  using fresh_notin_cells [of h] by (simp add: release_def)

lemma name_layout:
  "take 63 (cs @ replicate 63 (0::byte)) @ [0] =
   take (min (length cs) 63) cs @ replicate (64 - min (length cs) 63) 0"
proof (cases "length cs \<le> 63")
  case True
  then have "64 - length cs = Suc (63 - length cs)"
    by simp
  then have "replicate (63 - length cs) (0::byte) @ [0] = replicate (64 - length cs) 0"
    by (simp only: replicate_Suc replicate_append_same)
  then show ?thesis using True by (simp add: min_absorb1)
next
  case False
  then show ?thesis by (simp add: min_absorb2)
qed

lemma cstring_name:
  "cstring (take (min (length (cstring src)) 63) (cstring src)
            @ replicate (64 - min (length (cstring src)) 63) 0) =
   take (min (length (cstring src)) 63) (cstring src)"
proof -
  let ?xs = "take (min (length (cstring src)) 63) (cstring src)"
  have nz: "\<forall>x\<in>set ?xs. x \<noteq> 0"
    using cstring_nonzero [of src] by (meson in_set_takeD)
  have "64 - min (length (cstring src)) 63 = Suc (63 - min (length (cstring src)) 63)"
    by simp
  then have "replicate (64 - min (length (cstring src)) 63) (0::byte) =
             replicate (63 - min (length (cstring src)) 63) 0 @ [0]"
    by (simp only: replicate_Suc replicate_append_same)
  then show ?thesis using cstring_padded [OF nz] by simp
qed

lemma set_complex_value_live:
  assumes "load_object h p = Inr c"
  shows "set_complex_value h p v = Inr (assign h p (Object \<lparr>value_field = v\<rparr>))"
    and "load_object (assign h p (Object \<lparr>value_field = v\<rparr>)) p = Inr \<lparr>value_field = v\<rparr>"
proof -
  have e: "c\<lparr>value_field := v\<rparr> = \<lparr>value_field = v\<rparr>"
    by (cases c) simp
  have "set_complex_value h p v = Inr (assign h p (Object (c\<lparr>value_field := v\<rparr>)))"
    using assms by (simp add: set_complex_value_def setValue_def)
  then show "set_complex_value h p v = Inr (assign h p (Object \<lparr>value_field = v\<rparr>))"
    by (simp only: e)
  have "p \<noteq> 0"
    using assms by (simp add: load_object_Inr_iff)
  then show "load_object (assign h p (Object \<lparr>value_field = v\<rparr>)) p = Inr \<lparr>value_field = v\<rparr>"
    by (simp add: load_object_Inr_iff lookup_assign)
qed

lemma set_complex_values_last:
  "load_object h p = Inr c \<Longrightarrow>
   \<exists>h'. set_complex_values h p (vs @ [v]) = Inr h' \<and> load_object h' p = Inr \<lparr>value_field = v\<rparr>"
proof (induction vs arbitrary: h c)
  case Nil
  then show ?case using set_complex_value_live [OF Nil, of v] by simp
next
  case (Cons a vs)
  show ?case
    using set_complex_value_live [OF Cons.prems, of a] Cons.IH by simp
qed

lemma get_complex_value_live:
  "load_object h p = Inr c \<Longrightarrow> get_complex_value h p = Inr (value_field c, h)"
  by (simp add: get_complex_value_def getValue_def)

lemma create_complex_object_live:
  "create_complex_object h0 = Inr (p, h1) \<Longrightarrow> load_object h1 p = Inr ComplexObject_init"
  unfolding create_complex_object_def
  by (drule new_Inr_D) (simp add: load_object_Inr_iff lookup_head)

text \<open>The bounds checks are effective: a write past the end of an array is an error.\<close>

lemma wr_out_of_bounds: "length xs \<le> i \<Longrightarrow> wr xs i v = Inl OutOfBounds"
  by (simp add: wr_def)

lemma strncpy_overrun:
  "length dst < n \<Longrightarrow> length dst \<le> length (cstring src) \<Longrightarrow> 0 \<in> set src \<Longrightarrow>
   i \<le> length dst \<Longrightarrow> strncpy_copy dst src i n = Inl OutOfBounds"
proof (induction dst src i n rule: strncpy_copy.induct)
  case (1 dst src i n)
  have lt: "length (cstring src) < length src"
    using "1.prems"(3) by (rule cstring_length_less)
  have r: "rd src i = Inr (src ! i)"
    using lt "1.prems" by (simp add: rd_def)
  show ?case
  proof (cases "i = length dst")
    case True
    have "src ! i \<noteq> 0 \<or> i = length (cstring src)"
      using cstring_nth [of i src] "1.prems" by (cases "i < length (cstring src)") auto
    moreover have "strncpy_fill dst i n = Inl OutOfBounds"
      using True "1.prems"(1) by (subst strncpy_fill.simps) (simp add: wr_def)
    ultimately show ?thesis
      using True "1.prems"(1) r by (subst strncpy_copy.simps) (auto simp: wr_def)
  next
    case False
    then have i: "i < length dst" using "1.prems"(4) by simp
    then have nz: "src ! i \<noteq> 0"
      using cstring_nth [of i src] "1.prems"(2) by simp
    have w: "wr dst i (src ! i) = Inr (dst[i := src ! i])"
      using i by (simp add: wr_def)
    have "strncpy_copy (dst[i := src ! i]) src (Suc i) n = Inl OutOfBounds"
      using i "1.prems" by (intro "1.IH" [OF _ r nz w]) simp_all
    then show ?thesis
      using i "1.prems"(1) r nz w by (subst strncpy_copy.simps) simp
  qed
qed

text \<open>
  When \<^verbatim>\<open>malloc\<close> fails, \<^verbatim>\<open>create_data\<close> stores through the null pointer it was given.
\<close>

lemma create_data_alloc_failure:
  "room h < sizeof_FFIData \<Longrightarrow> create_data h raw ident name val = Inl NullDeref"
  by (simp add: create_data_def malloc_def alloc_def store_id_def load_data_def deref_def)


section \<open>Facts about the example memory\<close>

lemma caller_abc: "load_bytes caller_heap 3 = Inr [97, 98, 99, 0, 7]"
  by (simp add: load_bytes_def deref_def lookup_def caller_heap_def)

lemma caller_long: "load_bytes caller_heap 7 = Inr (replicate 70 120 @ [0])"
  by (simp add: load_bytes_def deref_def lookup_def caller_heap_def)

lemma cstring_abc: "cstring [97, 98, 99, 0, 7] = [97, 98, 99]"
  by (simp add: cstring_def)

lemma cstring_long: "cstring (replicate 70 120 @ [0]) = replicate 70 120"
  using cstring_padded [of "replicate 70 120" 0] by simp

lemma create_holder: "create_complex_object caller_heap = Inr (12, holder_heap)"
  by (simp add: create_complex_object_def new_def alloc_def fresh_def holder_heap_def
      caller_heap_def sizeof_ComplexObject_def)

lemma sum_array_overflow_example:
  "sum_array caller_heap 9 2 = Inr 2147483648 \<and> sint (2147483648 :: int32) = - 2147483648"
proof -
  have "load_ints caller_heap 9 = Inr [2147483647, 1]"
    by (simp add: load_ints_def deref_def lookup_def caller_heap_def)
  then have "sum_array caller_heap 9 2 = Inr (sum_list (take 2 [2147483647, 1]))"
    by (rule sum_array_result) simp
  then show ?thesis by simp
qed

lemma reverse_string_empty:
  "reverse_string caller_heap raw_bytes 11 =
     Inr (12, caller_heap\<lparr>cells := (12, Bytes [0]) # cells caller_heap, room := 199\<rparr>)"
proof -
  have h1: "load_bytes caller_heap 11 = Inr [0]"
    by (simp add: load_bytes_def deref_def lookup_def caller_heap_def)
  have c: "cstring [0] = []"
    by (simp add: cstring_def)
  have "fresh caller_heap = 12" and "room caller_heap = 200"
    by (simp_all add: fresh_def caller_heap_def)
  then show ?thesis
    using reverse_string_result [OF h1, of raw_bytes] by (simp add: c)
qed


section \<open>The claims\<close>

text \<open>
  C1 (amended). For every callback \<open>cb\<close>, each of the two exported \<^verbatim>\<open>register_callback\<close>
  entry points invokes \<open>cb\<close> exactly once, within the call: the log of invocations grows
  by one entry and the caller's state is the one \<open>cb\<close> leaves. The status passed is 200
  in \<^verbatim>\<open>c/ffi.c\<close> and 42 in \<^verbatim>\<open>ffi.cc\<close>.
\<close>

theorem register_callback_invokes_once:
  "register_callback cb s = \<lparr>world = cb 200 (world s), calls = calls s @ [200]\<rparr> \<and>
   register_callback_cxx cb s = \<lparr>world = cb 42 (world s), calls = calls s @ [42]\<rparr>"
  by (simp add: register_callback_def register_callback_cxx_def invoke_def)

text \<open>
  C1 (amended), on the recording callback: one invocation each, with 200 and with 42.
\<close>

theorem register_callback_invokes_once_witness:
  "register_callback counting_callback \<lparr>world = (0, 0), calls = []\<rparr> =
     \<lparr>world = (1, 200), calls = [200]\<rparr> \<and>
   register_callback_cxx counting_callback \<lparr>world = (0, 0), calls = []\<rparr> =
     \<lparr>world = (1, 42), calls = [42]\<rparr>"
  using register_callback_invokes_once [of counting_callback "\<lparr>world = (0, 0), calls = []\<rparr>"]
  by (simp add: counting_callback_def)

text \<open>
  C1 as stated fails for the entry point of \<^verbatim>\<open>ffi.cc\<close>: the recording callback is invoked
  once, but with 42 and not with 200.
\<close>

theorem register_callback_cxx_passes_42:
  "register_callback_cxx counting_callback \<lparr>world = (0, 0), calls = []\<rparr> =
     \<lparr>world = (1, 42), calls = [42]\<rparr> \<and>
   register_callback_cxx counting_callback \<lparr>world = (0, 0), calls = []\<rparr> \<noteq>
     \<lparr>world = (1, 200), calls = [200]\<rparr>"
  by (simp add: register_callback_cxx_def invoke_def counting_callback_def)

text \<open>
  C2. When \<open>name\<close> points to a null-terminated string and the allocation succeeds,
  \<^verbatim>\<open>create_data\<close> returns a record whose \<^verbatim>\<open>id\<close> and \<^verbatim>\<open>value\<close> are the arguments and whose
  \<^verbatim>\<open>name\<close> holds the first \<open>min (len, 63)\<close> characters of the input, followed by null bytes.
\<close>

theorem create_data_fields:
  assumes "load_bytes h name = Inr src"
    and "0 \<in> set src"
    and "length (d_name raw) = 64"
    and "sizeof_FFIData \<le> room h"
  shows "\<exists>data h' r.
           create_data h raw ident name val = Inr (data, h') \<and>
           load_data h' data = Inr r \<and>
           d_id r = ident \<and>
           d_value r = val \<and>
           d_name r = take (min (length (cstring src)) 63) (cstring src)
                        @ replicate (64 - min (length (cstring src)) 63) 0 \<and>
           cstring (d_name r) = take (min (length (cstring src)) 63) (cstring src)"
proof -
  let ?r = "\<lparr>d_id = ident,
             d_name = take 63 (cstring src @ replicate 63 0) @ [0],
             d_value = val\<rparr>"
  let ?h = "h\<lparr>cells := (fresh h, Data ?r) # cells h, room := room h - sizeof_FFIData\<rparr>"
  have "create_data h raw ident name val = Inr (fresh h, ?h)"
    using assms by (rule create_data_result)
  moreover have "load_data ?h (fresh h) = Inr ?r"
    by (simp add: load_data_Inr_iff lookup_head)
  moreover have "d_name ?r = take (min (length (cstring src)) 63) (cstring src)
                   @ replicate (64 - min (length (cstring src)) 63) 0"
    using name_layout [of "cstring src"] by simp
  moreover have "cstring (d_name ?r) = take (min (length (cstring src)) 63) (cstring src)"
    using name_layout [of "cstring src"] cstring_name [of src] by simp
  moreover have "d_id ?r = ident" and "d_value ?r = val"
    by simp_all
  ultimately show ?thesis by blast
qed

text \<open>
  C2 on the string \<^verbatim>\<open>"abc"\<close>: the name is \<^verbatim>\<open>"abc"\<close> followed by 61 null bytes.
\<close>

theorem create_data_fields_witness:
  "load_bytes caller_heap 3 = Inr [97, 98, 99, 0, 7] \<and>
   (0::byte) \<in> set [97, 98, 99, 0, 7] \<and>
   length (d_name raw_data) = 64 \<and>
   sizeof_FFIData \<le> room caller_heap \<and>
   (\<exists>data h' r.
      create_data caller_heap raw_data 42 3 1234 = Inr (data, h') \<and>
      load_data h' data = Inr r \<and>
      d_id r = 42 \<and>
      d_value r = 1234 \<and>
      d_name r = [97, 98, 99] @ replicate 61 0 \<and>
      cstring (d_name r) = [97, 98, 99])"
proof -
  have h1: "load_bytes caller_heap 3 = Inr [97, 98, 99, 0, 7]"
    by (rule caller_abc)
  have h2: "(0::byte) \<in> set [97, 98, 99, 0, 7]"
    by simp
  have h3: "length (d_name raw_data) = 64"
    by (simp add: raw_data_def)
  have h4: "sizeof_FFIData \<le> room caller_heap"
    by (simp add: sizeof_FFIData_def caller_heap_def)
  show ?thesis
    using create_data_fields [OF h1 h2 h3 h4, of 42 1234] h1 h2 h3 h4
    by (simp add: cstring_abc)
qed

text \<open>
  C3. For an input of more than 63 characters, the stored name has exactly 63 characters
  before its terminator, the 64-byte array ends in a null byte, every write stays inside
  the array (no access is out of bounds, the array keeps its 64 bytes) and all other
  memory, the input included, is as before.
\<close>

theorem create_data_truncates:
  assumes "load_bytes h name = Inr src"
    and "0 \<in> set src"
    and "length (d_name raw) = 64"
    and "sizeof_FFIData \<le> room h"
    and "63 < length (cstring src)"
  shows "\<exists>data h' r.
           create_data h raw ident name val = Inr (data, h') \<and>
           load_data h' data = Inr r \<and>
           length (cstring (d_name r)) = 63 \<and>
           length (d_name r) = 64 \<and>
           d_name r ! 63 = 0 \<and>
           cells h' = (data, Data r) # cells h \<and>
           load_bytes h' name = Inr src"
proof -
  let ?nm = "take 63 (cstring src @ replicate 63 0) @ [0]"
  let ?r = "\<lparr>d_id = ident, d_name = ?nm, d_value = val\<rparr>"
  let ?h = "h\<lparr>cells := (fresh h, Data ?r) # cells h, room := room h - sizeof_FFIData\<rparr>"
  have res: "create_data h raw ident name val = Inr (fresh h, ?h)"
    using assms(1-4) by (rule create_data_result)
  have ld: "load_data ?h (fresh h) = Inr ?r"
    by (simp add: load_data_Inr_iff lookup_head)
  have nm: "?nm = take 63 (cstring src) @ [0]"
    using assms(5) by simp
  have nz: "\<forall>x\<in>set (take 63 (cstring src)). x \<noteq> 0"
    using cstring_nonzero [of src] by (meson in_set_takeD)
  have "cstring (take 63 (cstring src) @ replicate 0 0 @ [0]) = take 63 (cstring src)"
    using nz by (rule cstring_padded)
  then have len: "length (cstring ?nm) = 63"
    using assms(5) nm by simp
  have l64: "length ?nm = 64"
    by simp
  have "length (take 63 (cstring src)) = 63"
    using assms(5) by simp
  then have "(take 63 (cstring src) @ [0]) ! 63 = 0"
    by (metis nth_append_length)
  then have last: "?nm ! 63 = 0"
    using nm by simp
  have inp: "load_bytes ?h name = Inr src"
    using assms(1) by (auto simp: load_bytes_Inr_iff lookup_head)
  have "length (cstring (d_name ?r)) = 63" and "length (d_name ?r) = 64"
    and "d_name ?r ! 63 = 0" and "cells ?h = (fresh h, Data ?r) # cells h"
    using len l64 last by simp_all
  then show ?thesis using res ld inp by blast
qed

text \<open>
  C3 on a string of 70 characters.
\<close>

theorem create_data_truncates_witness:
  "load_bytes caller_heap 7 = Inr (replicate 70 120 @ [0]) \<and>
   (0::byte) \<in> set (replicate 70 120 @ [0]) \<and>
   length (d_name raw_data) = 64 \<and>
   sizeof_FFIData \<le> room caller_heap \<and>
   63 < length (cstring (replicate 70 120 @ [0])) \<and>
   (\<exists>data h' r.
      create_data caller_heap raw_data 42 7 1234 = Inr (data, h') \<and>
      load_data h' data = Inr r \<and>
      length (cstring (d_name r)) = 63 \<and>
      length (d_name r) = 64 \<and>
      d_name r ! 63 = 0 \<and>
      cells h' = (data, Data r) # cells caller_heap \<and>
      load_bytes h' 7 = Inr (replicate 70 120 @ [0]))"
proof -
  have h1: "load_bytes caller_heap 7 = Inr (replicate 70 120 @ [0])"
    by (rule caller_long)
  have h2: "(0::byte) \<in> set (replicate 70 120 @ [0])"
    by simp
  have h3: "length (d_name raw_data) = 64"
    by (simp add: raw_data_def)
  have h4: "sizeof_FFIData \<le> room caller_heap"
    by (simp add: sizeof_FFIData_def caller_heap_def)
  have h5: "63 < length (cstring (replicate 70 120 @ [0]))"
    by (simp add: cstring_long)
  show ?thesis
    using create_data_truncates [OF h1 h2 h3 h4 h5, of 42 1234] h1 h2 h3 h4 h5
    by simp
qed

text \<open>
  C4. When the buffer holds at least \<open>n\<close> elements, \<^verbatim>\<open>sum_array\<close> returns the sum of the
  first \<open>n\<close> elements, read as signed integers, reduced modulo \<open>2 ^ 32\<close>; it reports no
  error; for length 0 it returns 0 without reading the buffer.
\<close>

theorem sum_array_wraps:
  assumes "load_ints h array = Inr xs" and "n \<le> length xs"
  shows "sum_array h array n = Inr (word_of_int (sum_list (map sint (take n xs)))) \<and>
         sum_array h other 0 = Inr 0"
  using sum_array_result [OF assms] sum_array_zero_length [of h other]
  by (simp add: word_sum_list_sint)

text \<open>
  C4 on the array \<^verbatim>\<open>{1, 2, 3}\<close>: the sum is 6, and 0 for length 0.
\<close>

theorem sum_array_wraps_witness:
  "load_ints caller_heap 5 = Inr [1, 2, 3] \<and>
   3 \<le> length [1, 2, 3 :: int32] \<and>
   sum_array caller_heap 5 3 = Inr 6 \<and>
   sum_array caller_heap 5 0 = Inr 0"
proof -
  have h1: "load_ints caller_heap 5 = Inr [1, 2, 3]"
    by (simp add: load_ints_def deref_def lookup_def caller_heap_def)
  have h2: "3 \<le> length [1, 2, 3 :: int32]"
    by simp
  show ?thesis
    using sum_array_wraps [OF h1 h2, where other = 5] h1 by simp
qed

text \<open>
  C5. When \<open>input\<close> points to a null-terminated string and the allocation succeeds,
  \<^verbatim>\<open>reverse_string\<close> returns a pointer that was not live before, to a buffer that holds
  the bytes of the input in reverse order followed by a null byte; the string it holds
  has the length of the input.
\<close>

theorem reverse_string_reverses:
  assumes "load_bytes h input = Inr src"
    and "0 \<in> set src"
    and "length (cstring src) + 1 \<le> room h"
  shows "\<exists>result h' out.
           reverse_string h junk input = Inr (result, h') \<and>
           result \<noteq> 0 \<and> lookup h result = None \<and>
           load_bytes h' result = Inr out \<and>
           out = rev (cstring src) @ [0] \<and>
           cstring out = rev (cstring src) \<and>
           length (cstring out) = length (cstring src)"
proof -
  let ?out = "rev (cstring src) @ [0]"
  let ?h = "h\<lparr>cells := (fresh h, Bytes ?out) # cells h,
              room := room h - (length (cstring src) + 1)\<rparr>"
  have res: "reverse_string h junk input = Inr (fresh h, ?h)"
    using assms by (rule reverse_string_result)
  have ld: "load_bytes ?h (fresh h) = Inr ?out"
    by (simp add: load_bytes_Inr_iff lookup_head)
  have "\<forall>x\<in>set (rev (cstring src)). x \<noteq> 0"
    using cstring_nonzero [of src] by simp
  then have "cstring (rev (cstring src) @ replicate 0 0 @ [0]) = rev (cstring src)"
    by (rule cstring_padded)
  then have cs: "cstring ?out = rev (cstring src)"
    by simp
  then have "length (cstring ?out) = length (cstring src)"
    by simp
  then show ?thesis using res ld cs by (intro exI [of _ "fresh h"] exI [of _ ?h] exI [of _ ?out]) simp
qed

text \<open>
  C5 on the string \<^verbatim>\<open>"abc"\<close>: the result is \<^verbatim>\<open>"cba"\<close>.
\<close>

theorem reverse_string_reverses_witness:
  "load_bytes caller_heap 3 = Inr [97, 98, 99, 0, 7] \<and>
   (0::byte) \<in> set [97, 98, 99, 0, 7] \<and>
   length (cstring [97, 98, 99, 0, 7]) + 1 \<le> room caller_heap \<and>
   (\<exists>result h' out.
      reverse_string caller_heap raw_bytes 3 = Inr (result, h') \<and>
      result \<noteq> 0 \<and> lookup caller_heap result = None \<and>
      load_bytes h' result = Inr out \<and>
      out = [99, 98, 97, 0] \<and>
      cstring out = [99, 98, 97] \<and>
      length (cstring out) = 3)"
proof -
  have h1: "load_bytes caller_heap 3 = Inr [97, 98, 99, 0, 7]"
    by (rule caller_abc)
  have h2: "(0::byte) \<in> set [97, 98, 99, 0, 7]"
    by simp
  have h3: "length (cstring [97, 98, 99, 0, 7]) + 1 \<le> room caller_heap"
    by (simp add: cstring_abc caller_heap_def)
  show ?thesis
    using reverse_string_reverses [OF h1 h2 h3, of raw_bytes] h1 h2 h3
    by (simp add: cstring_def)
qed

text \<open>
  C6. Reversing the result of \<^verbatim>\<open>reverse_string\<close> again gives a buffer that holds the
  original string.
\<close>

theorem reverse_string_involution:
  assumes "load_bytes h input = Inr src"
    and "0 \<in> set src"
    and "2 * (length (cstring src) + 1) \<le> room h"
  shows "\<exists>once h1 twice h2 out.
           reverse_string h junk input = Inr (once, h1) \<and>
           reverse_string h1 junk' once = Inr (twice, h2) \<and>
           load_bytes h2 twice = Inr out \<and>
           cstring out = cstring src"
proof -
  let ?n = "length (cstring src) + 1"
  let ?mid = "rev (cstring src) @ [0]"
  let ?h1 = "h\<lparr>cells := (fresh h, Bytes ?mid) # cells h, room := room h - ?n\<rparr>"
  let ?out = "cstring src @ [0]"
  let ?h2 = "?h1\<lparr>cells := (fresh ?h1, Bytes ?out) # cells ?h1, room := room ?h1 - ?n\<rparr>"
  have nz: "\<forall>x\<in>set (cstring src). x \<noteq> 0"
    by (rule cstring_nonzero)
  have first: "reverse_string h junk input = Inr (fresh h, ?h1)"
    using assms by (intro reverse_string_result) simp_all
  have ld: "load_bytes ?h1 (fresh h) = Inr ?mid"
    by (simp add: load_bytes_Inr_iff lookup_head)
  have "cstring (rev (cstring src) @ replicate 0 0 @ [0]) = rev (cstring src)"
    using nz by (intro cstring_padded) simp
  then have mid: "cstring ?mid = rev (cstring src)"
    by simp
  have "reverse_string ?h1 junk' (fresh h) =
        Inr (fresh ?h1,
             ?h1\<lparr>cells := (fresh ?h1, Bytes (rev (cstring ?mid) @ [0])) # cells ?h1,
                  room := room ?h1 - (length (cstring ?mid) + 1)\<rparr>)"
    using assms(3) ld by (intro reverse_string_result) (simp_all add: mid)
  then have second: "reverse_string ?h1 junk' (fresh h) = Inr (fresh ?h1, ?h2)"
    by (simp add: mid)
  have ld2: "load_bytes ?h2 (fresh ?h1) = Inr ?out"
    by (simp add: load_bytes_Inr_iff lookup_def)
  have "cstring (cstring src @ replicate 0 0 @ [0]) = cstring src"
    using nz by (rule cstring_padded)
  then have "cstring ?out = cstring src"
    by simp
  then show ?thesis using first second ld2 by blast
qed

text \<open>
  C6 on the string \<^verbatim>\<open>"abc"\<close>.
\<close>

theorem reverse_string_involution_witness:
  "load_bytes caller_heap 3 = Inr [97, 98, 99, 0, 7] \<and>
   (0::byte) \<in> set [97, 98, 99, 0, 7] \<and>
   2 * (length (cstring [97, 98, 99, 0, 7]) + 1) \<le> room caller_heap \<and>
   (\<exists>once h1 twice h2 out.
      reverse_string caller_heap raw_bytes 3 = Inr (once, h1) \<and>
      reverse_string h1 raw_bytes once = Inr (twice, h2) \<and>
      load_bytes h2 twice = Inr out \<and>
      cstring out = [97, 98, 99])"
proof -
  have h1: "load_bytes caller_heap 3 = Inr [97, 98, 99, 0, 7]"
    by (rule caller_abc)
  have h2: "(0::byte) \<in> set [97, 98, 99, 0, 7]"
    by simp
  have h3: "2 * (length (cstring [97, 98, 99, 0, 7]) + 1) \<le> room caller_heap"
    by (simp add: cstring_abc caller_heap_def)
  show ?thesis
    using reverse_string_involution [OF h1 h2 h3, where junk = raw_bytes and junk' = raw_bytes] h1 h2 h3
    by (simp add: cstring_abc)
qed

text \<open>
  C7. When the allocation succeeds, \<^verbatim>\<open>create_point\<close> returns a record whose fields are
  exactly the two arguments.
\<close>

theorem create_point_reads_back:
  assumes "sizeof_FFIPoint \<le> room h"
  shows "\<exists>point h' pt.
           create_point h x y = Inr (point, h') \<and>
           load_point h' point = Inr pt \<and>
           point_x pt = x \<and> point_y pt = y"
  using assms by (simp add: create_point_def new_Inr load_point_Inr_iff lookup_head)

text \<open>
  C7 on the bit patterns of 1.5 and -2.5.
\<close>

theorem create_point_reads_back_witness:
  "sizeof_FFIPoint \<le> room caller_heap \<and>
   (\<exists>point h' pt.
      create_point caller_heap 4609434218613702656 13836183955189006336 = Inr (point, h') \<and>
      load_point h' point = Inr pt \<and>
      point_x pt = 4609434218613702656 \<and> point_y pt = 13836183955189006336)"
proof -
  have h1: "sizeof_FFIPoint \<le> room caller_heap"
    by (simp add: sizeof_FFIPoint_def caller_heap_def)
  show ?thesis
    using create_point_reads_back [OF h1, of 4609434218613702656 13836183955189006336] h1
    by simp
qed

text \<open>
  C8. On a handle returned by \<^verbatim>\<open>create_complex_object\<close>, after any sequence of
  \<^verbatim>\<open>set_complex_value\<close> calls that ends with the value \<open>v\<close>, \<^verbatim>\<open>get_complex_value\<close> returns
  \<open>v\<close> and leaves the memory as it found it.
\<close>

theorem set_then_get_complex_value:
  assumes "create_complex_object h0 = Inr (handle, h1)"
  shows "\<exists>h2. set_complex_values h1 handle (vs @ [v]) = Inr h2 \<and>
              get_complex_value h2 handle = Inr (v, h2)"
proof -
  have "load_object h1 handle = Inr ComplexObject_init"
    using assms by (rule create_complex_object_live)
  then obtain h2 where "set_complex_values h1 handle (vs @ [v]) = Inr h2"
    and "load_object h2 handle = Inr \<lparr>value_field = v\<rparr>"
    using set_complex_values_last by blast
  then show ?thesis using get_complex_value_live [of h2 handle "\<lparr>value_field = v\<rparr>"] by auto
qed

text \<open>
  C8 on the calls that set 5, 7 and 9.
\<close>

theorem set_then_get_complex_value_witness:
  "create_complex_object caller_heap = Inr (12, holder_heap) \<and>
   (\<exists>h2. set_complex_values holder_heap 12 ([5, 7] @ [9]) = Inr h2 \<and>
         get_complex_value h2 12 = Inr (9, h2))"
proof -
  have h1: "create_complex_object caller_heap = Inr (12, holder_heap)"
    by (rule create_holder)
  show ?thesis
    using set_then_get_complex_value [OF h1, of "[5, 7]" 9] h1 by simp
qed

text \<open>
  C9. On a handle just returned by \<^verbatim>\<open>create_complex_object\<close>, \<^verbatim>\<open>get_complex_value\<close>
  returns 0.
\<close>

theorem fresh_complex_object_is_zero:
  assumes "create_complex_object h0 = Inr (handle, h1)"
  shows "get_complex_value h1 handle = Inr (0, h1)"
  using get_complex_value_live [OF create_complex_object_live [OF assms]]
  by (simp add: ComplexObject_init_def)

text \<open>
  C9 on the example memory.
\<close>

theorem fresh_complex_object_is_zero_witness:
  "create_complex_object caller_heap = Inr (12, holder_heap) \<and>
   get_complex_value holder_heap 12 = Inr (0, holder_heap)"
proof -
  have h1: "create_complex_object caller_heap = Inr (12, holder_heap)"
    by (rule create_holder)
  show ?thesis
    using fresh_complex_object_is_zero [OF h1] h1 by simp
qed

text \<open>
  C10. \<^verbatim>\<open>get_string\<close> returns, in every state, the same constant string
  \<^verbatim>\<open>"Hello from C++"\<close> with its terminator, and allocates nothing; \<^verbatim>\<open>process_string\<close>,
  given a null-terminated string and room for its temporary copy, returns and leaves the
  memory exactly as it was.
\<close>

theorem get_string_constant_process_string_pure:
  assumes "load_bytes h input = Inr src"
    and "0 \<in> set src"
    and "length (cstring src) + 1 \<le> room h"
  shows "get_string h = (string_literal ''Hello from C++'', h) \<and>
         get_string h' = (string_literal ''Hello from C++'', h') \<and>
         cstring (string_literal ''Hello from C++'') = map of_char ''Hello from C++'' \<and>
         length (cstring (string_literal ''Hello from C++'')) = 14 \<and>
         process_string h input = Inr h"
proof -
  have "cstring (string_literal ''Hello from C++'') = map of_char ''Hello from C++''"
    by (simp add: string_literal_def cstring_def)
  moreover have "process_string h input = Inr h"
    using assms by (simp add: process_string_def strlen_cstring new_Inr release_new)
  ultimately show ?thesis by (simp add: get_string_def)
qed

text \<open>
  C10 on the string \<^verbatim>\<open>"abc"\<close>.
\<close>

theorem get_string_constant_process_string_pure_witness:
  "load_bytes caller_heap 3 = Inr [97, 98, 99, 0, 7] \<and>
   (0::byte) \<in> set [97, 98, 99, 0, 7] \<and>
   length (cstring [97, 98, 99, 0, 7]) + 1 \<le> room caller_heap \<and>
   get_string caller_heap = (string_literal ''Hello from C++'', caller_heap) \<and>
   get_string holder_heap = (string_literal ''Hello from C++'', holder_heap) \<and>
   cstring (string_literal ''Hello from C++'') = map of_char ''Hello from C++'' \<and>
   length (cstring (string_literal ''Hello from C++'')) = 14 \<and>
   process_string caller_heap 3 = Inr caller_heap"
proof -
  have h1: "load_bytes caller_heap 3 = Inr [97, 98, 99, 0, 7]"
    by (rule caller_abc)
  have h2: "(0::byte) \<in> set [97, 98, 99, 0, 7]"
    by simp
  have h3: "length (cstring [97, 98, 99, 0, 7]) + 1 \<le> room caller_heap"
    by (simp add: cstring_abc caller_heap_def)
  show ?thesis
    using get_string_constant_process_string_pure [OF h1 h2 h3, of holder_heap] h1 h2 h3
    by simp
qed

end
